theory Spec2Isabelle
  imports Complex_Main "HOL-Library.Finite_Map"
begin

text \<open>
  A model of the usegs state manager: the merge policy \<^verbatim>\<open>makeNewValue\<close> of
  \<^verbatim>\<open>utils.js\<close>, and \<^verbatim>\<open>registerGS\<close>, \<^verbatim>\<open>initGS\<close>, \<^verbatim>\<open>getGS\<close>, \<^verbatim>\<open>setGS\<close> and the hook
  \<^verbatim>\<open>useGS\<close> of the state manager, over the module's object \<^verbatim>\<open>GS\<close>.
\<close>

section \<open>JavaScript values\<close>

text \<open>
  The values the registry stores. A number is a double: a finite double is a rational,
  and the other shapes are listed; the code only ever uses the truthiness of a number.
  A string is a list of code units (of one byte here), an array a list of elements (no
  holes), a keyed record a finite map from property names to values (the code never
  looks at the order of properties), a function an opaque identity. Other objects
  (dates, maps, instances of classes), symbols and big integers are left out. Values
  are compared by content; the code itself compares a stored value only with
  \<^verbatim>\<open>undefined\<close>.
\<close>

datatype jsnum = Rational rat | NegativeZero | Infinity bool | NaN

datatype jsval =
    JUndefined
  | JNull
  | JBool bool
  | JNum jsnum
  | JStr string
  | JArr "jsval list"
  | JObj "(string, jsval) fmap"
  | JFun nat

text \<open>\<^verbatim>\<open>!v\<close> is false exactly for the truthy values.\<close>

fun truthy :: "jsval \<Rightarrow> bool" where
  "truthy JUndefined = False"
| "truthy JNull = False"
| "truthy (JBool b) = b"
| "truthy (JNum n) = (n \<noteq> Rational 0 \<and> n \<noteq> NegativeZero \<and> n \<noteq> NaN)"
| "truthy (JStr s) = (s \<noteq> [])"
| "truthy (JArr xs) = True"
| "truthy (JObj m) = True"
| "truthy (JFun f) = True"

fun typeof :: "jsval \<Rightarrow> string" where
  "typeof JUndefined = ''undefined''"
| "typeof JNull = ''object''"
| "typeof (JBool b) = ''boolean''"
| "typeof (JNum n) = ''number''"
| "typeof (JStr s) = ''string''"
| "typeof (JArr xs) = ''object''"
| "typeof (JObj m) = ''object''"
| "typeof (JFun f) = ''function''"

fun isArray :: "jsval \<Rightarrow> bool" where
  "isArray (JArr xs) = True"
| "isArray v = False"

text \<open>The scalars of the specification: the primitive values.\<close>

fun is_scalar :: "jsval \<Rightarrow> bool" where
  "is_scalar (JArr xs) = False"
| "is_scalar (JObj m) = False"
| "is_scalar (JFun f) = False"
| "is_scalar v = True"

fun is_record :: "jsval \<Rightarrow> bool" where
  "is_record (JObj m) = True"
| "is_record v = False"

text \<open>The keys of a value that is a keyed record; another value has none.\<close>

fun record_keys :: "jsval \<Rightarrow> string fset" where
  "record_keys (JObj m) = fmdom m"
| "record_keys v = {||}"

text \<open>The property name of an array index: its decimal numeral.\<close>

fun index_key :: "nat \<Rightarrow> string" where
  "index_key n =
     (if n < 10 then [''0123456789'' ! n]
      else index_key (n div 10) @ [''0123456789'' ! (n mod 10)])"

declare index_key.simps [simp del]

text \<open>
  The own enumerable properties that an object spread \<^verbatim>\<open>{...v}\<close> copies: the fields of
  a record, the elements of an array under their indices, the code units of a string
  under their indices, and nothing for the other values.
\<close>

fun own_props :: "jsval \<Rightarrow> (string, jsval) fmap" where
  "own_props (JObj m) = m"
| "own_props (JArr xs) = fmap_of_list (zip (map index_key [0..<length xs]) xs)"
| "own_props (JStr s) =
     fmap_of_list (zip (map index_key [0..<length s]) (map (\<lambda>c. JStr [c]) s))"
| "own_props v = fmempty"

section \<open>The merge policy (utils.js)\<close>

definition makeNewValue :: "jsval \<Rightarrow> jsval \<Rightarrow> jsval" where
  "makeNewValue val newVal =
     (if \<not> truthy val \<or> \<not> truthy newVal then newVal
      else if typeof val = ''object'' \<and> \<not> isArray val
        then JObj (own_props val ++\<^sub>f own_props newVal)
      else newVal)"

section \<open>The registry and the hook cells\<close>

text \<open>
  A listener is the array \<^verbatim>\<open>[val, setVal]\<close> that the effect of \<^verbatim>\<open>useGS\<close> puts into a
  \<^verbatim>\<open>Set\<close>. A \<^verbatim>\<open>Set\<close> tells objects apart by reference, so the model gives every array
  the reference it was allocated at. \<^verbatim>\<open>setVal\<close> is the state setter of one component
  instance: it is named by the number of that instance.
\<close>

record listener =
  listener_ref :: nat
  listener_val :: nat
  listener_setVal :: nat

record entry =
  entry_value :: jsval
  listeners :: "listener list"

text \<open>
  \<^verbatim>\<open>Set.prototype.add\<close> and \<^verbatim>\<open>Set.prototype.delete\<close> on a set of object references, kept
  in insertion order (the order \<^verbatim>\<open>forEach\<close> visits).
\<close>

definition set_add :: "listener \<Rightarrow> listener list \<Rightarrow> listener list" where
  "set_add l ls = (if listener_ref l \<in> listener_ref ` set ls then ls else ls @ [l])"

definition set_delete :: "listener \<Rightarrow> listener list \<Rightarrow> listener list" where
  "set_delete l ls = filter (\<lambda>x. listener_ref x \<noteq> listener_ref l) ls"

text \<open>
  The cells React keeps for one component instance that calls \<^verbatim>\<open>useGS\<close>: the state of
  \<^verbatim>\<open>useState(0)\<close> with the updaters queued for it (each is \<^verbatim>\<open>prev => prev + 1\<close>), the
  ref \<^verbatim>\<open>isFirstRender\<close>, and the effect: the dependencies \<^verbatim>\<open>[key, val]\<close> of the latest
  render not yet committed, those of the effect that ran last, and the cleanup that
  run returned (the \<^verbatim>\<open>key\<close> and \<^verbatim>\<open>val\<close> its closure holds), if it returned one. The
  state counts the updaters applied, a natural number (a double counts exactly up to
  \<open>2 ^ 53\<close>).
\<close>

record component =
  val :: nat
  pending :: nat
  isFirstRender :: bool
  rendered :: "(string \<times> nat) option"
  effect_deps :: "(string \<times> nat) option"
  effect_cleanup :: "(string \<times> nat) option"
  unmounted :: bool

text \<open>
  What the program does that can be seen from outside, in the order it does it: it
  stores a value under a key of the registry, and it calls the state setter of a
  component instance.
\<close>

datatype action = Stored string jsval | Called nat

text \<open>
  The state of the program: the own properties of the module's object \<^verbatim>\<open>GS\<close>, the
  \<^verbatim>\<open>value\<close> property the code has put on an object that \<^verbatim>\<open>GS[key]\<close> found on the
  prototype, the cells of the component instances, the next fresh object reference, the
  calls of state setters React has received, in order, and the history of the stores
  and the calls, in the order of the statements that made them.
\<close>

record world =
  GS :: "string \<rightharpoonup> entry"
  inherited_value :: "string \<rightharpoonup> jsval"
  components :: "nat \<rightharpoonup> component"
  next_ref :: nat
  dispatched :: "nat list"
  history :: "action list"

definition initial_world :: world where
  "initial_world =
     \<lparr>GS = Map.empty, inherited_value = Map.empty, components = Map.empty,
      next_ref = 0, dispatched = [], history = []\<rparr>"

datatype error = TypeError

text \<open>
  \<^verbatim>\<open>const GS = {}\<close> is an ordinary object, so \<^verbatim>\<open>GS[key]\<close> also finds what \<^verbatim>\<open>GS\<close>
  inherits from \<^verbatim>\<open>Object.prototype\<close>. What it finds there is an object (a function, or
  the prototype itself), hence truthy; it has neither a \<^verbatim>\<open>value\<close> nor a \<^verbatim>\<open>listeners\<close>
  property of its own.

  The key \<^verbatim>\<open>__proto__\<close> is the accessor of the prototype. An assignment
  \<^verbatim>\<open>GS["__proto__"] = {...}\<close>, which \<^verbatim>\<open>registerGS\<close> makes for that key, adds no own
  property: it makes the new object the prototype of \<^verbatim>\<open>GS\<close>; and an assignment to
  \<^verbatim>\<open>GS["__proto__"].value\<close> before that writes \<^verbatim>\<open>Object.prototype.value\<close>. The model
  keeps both under the key itself, where they read back as in the code, but it does not
  show what other keys inherit from then on (\<^verbatim>\<open>GS["value"]\<close> and \<^verbatim>\<open>GS["listeners"]\<close>
  after the first, the \<^verbatim>\<open>value\<close> of every other inherited object after the second).
  A world of the model stands for a state of the program in which no assignment has
  been made through \<^verbatim>\<open>__proto__\<close>; after one, it shows what the code shows at the key
  \<^verbatim>\<open>__proto__\<close> itself.
\<close>

definition Object_prototype_names :: "string list" where
  "Object_prototype_names =
     [''constructor'', ''__defineGetter__'', ''__defineSetter__'', ''hasOwnProperty'',
      ''__lookupGetter__'', ''__lookupSetter__'', ''isPrototypeOf'',
      ''propertyIsEnumerable'', ''toString'', ''valueOf'', ''__proto__'',
      ''toLocaleString'']"

datatype slot = Entry entry | Inherited

text \<open>\<^verbatim>\<open>GS[key]\<close>: \<open>None\<close> is \<^verbatim>\<open>undefined\<close>, the one case in which \<^verbatim>\<open>!GS[key]\<close> holds.\<close>

definition lookupGS :: "string \<Rightarrow> world \<Rightarrow> slot option" where
  "lookupGS key w =
     (case GS w key of
        Some e \<Rightarrow> Some (Entry e)
      | None \<Rightarrow> if key \<in> set Object_prototype_names then Some Inherited else None)"

text \<open>\<^verbatim>\<open>GS[key].value\<close>, read and assigned; on \<^verbatim>\<open>undefined\<close> both throw.\<close>

definition read_value :: "string \<Rightarrow> world \<Rightarrow> error + jsval" where
  "read_value key w =
     (case lookupGS key w of
        None \<Rightarrow> Inl TypeError
      | Some (Entry e) \<Rightarrow> Inr (entry_value e)
      | Some Inherited \<Rightarrow>
          Inr (case inherited_value w key of None \<Rightarrow> JUndefined | Some v \<Rightarrow> v))"

definition assign_value :: "string \<Rightarrow> jsval \<Rightarrow> world \<Rightarrow> error + world" where
  "assign_value key v w =
     (case lookupGS key w of
        None \<Rightarrow> Inl TypeError
      | Some (Entry e) \<Rightarrow>
          Inr (w\<lparr>GS := (GS w)(key \<mapsto> e\<lparr>entry_value := v\<rparr>),
                 history := history w @ [Stored key v]\<rparr>)
      | Some Inherited \<Rightarrow>
          Inr (w\<lparr>inherited_value := (inherited_value w)(key \<mapsto> v),
                 history := history w @ [Stored key v]\<rparr>))"

section \<open>The operations of the registry\<close>

definition registerGS :: "string \<Rightarrow> jsval \<Rightarrow> world \<Rightarrow> world" where
  "registerGS key v w =
     w\<lparr>GS := (GS w)(key \<mapsto> \<lparr>entry_value = v, listeners = []\<rparr>),
       history := history w @ [Stored key v]\<rparr>"

text \<open>
  \<^verbatim>\<open>initGS\<close> takes the list \<^verbatim>\<open>Object.entries(initialState)\<close>: the pairs of the object,
  each key once, in the order \<^verbatim>\<open>forEach\<close> visits them.
\<close>

definition initGS :: "(string \<times> jsval) list \<Rightarrow> world \<Rightarrow> world" where
  "initGS initialState w = fold (\<lambda>(key, v). registerGS key v) initialState w"

definition getGS :: "string \<Rightarrow> world \<Rightarrow> jsval" where
  "getGS key w =
     (case lookupGS key w of
        None \<Rightarrow> JNull
      | Some (Entry e) \<Rightarrow> entry_value e
      | Some Inherited \<Rightarrow>
          (case inherited_value w key of None \<Rightarrow> JUndefined | Some v \<Rightarrow> v))"

text \<open>
  \<^verbatim>\<open>listener[1]((prev) => prev + 1)\<close>: React records the call and queues the updater
  for the component, which it renders again later; it drops an update for a component
  that is no longer mounted.
\<close>

definition dispatch :: "nat \<Rightarrow> world \<Rightarrow> world" where
  "dispatch i w =
     w\<lparr>dispatched := dispatched w @ [i],
       history := history w @ [Called i],
       components :=
         (case components w i of
            None \<Rightarrow> components w
          | Some c \<Rightarrow>
              if unmounted c then components w
              else (components w)(i \<mapsto> c\<lparr>pending := pending c + 1\<rparr>))\<rparr>"

definition notify :: "listener list \<Rightarrow> world \<Rightarrow> world" where
  "notify ls w = fold (\<lambda>l. dispatch (listener_setVal l)) ls w"

text \<open>
  \<^verbatim>\<open>setGS\<close>. On a name found on the prototype the assignment of line 199 goes to the
  object found there and \<^verbatim>\<open>GS[key].listeners.forEach\<close> throws, \<^verbatim>\<open>listeners\<close> being
  \<^verbatim>\<open>undefined\<close>; a run of the model ends at an exception.
\<close>

definition setGS :: "string \<Rightarrow> jsval \<Rightarrow> world \<Rightarrow> error + world" where
  "setGS key newValue w =
     (case lookupGS key w of
        None \<Rightarrow> Inr (registerGS key newValue w)
      | Some (Entry e) \<Rightarrow>
          Inr (notify (listeners e)
                 (w\<lparr>GS := (GS w)(key \<mapsto>
                       e\<lparr>entry_value := makeNewValue (entry_value e) newValue\<rparr>),
                    history := history w @
                      [Stored key (makeNewValue (entry_value e) newValue)]\<rparr>))
      | Some Inherited \<Rightarrow> Inl TypeError)"

section \<open>The hook\<close>

definition and_then :: "error + 'a \<Rightarrow> ('a \<Rightarrow> error + 'b) \<Rightarrow> error + 'b" where
  "and_then r f = (case r of Inl e \<Rightarrow> Inl e | Inr x \<Rightarrow> f x)"

definition fresh_component :: component where
  "fresh_component =
     \<lparr>val = 0, pending = 0, isFirstRender = True, rendered = None, effect_deps = None,
      effect_cleanup = None, unmounted = False\<rparr>"

text \<open>
  \<^verbatim>\<open>React.useState(0)\<close> and \<^verbatim>\<open>useRef(true)\<close> at a render: new cells at the first render
  of an instance, and afterwards the cells it has, the queued updaters applied.
\<close>

definition hook_cells :: "nat \<Rightarrow> world \<Rightarrow> component" where
  "hook_cells i w =
     (case components w i of
        None \<Rightarrow> fresh_component
      | Some c \<Rightarrow> c\<lparr>val := val c + pending c, pending := 0\<rparr>)"

definition update_cells :: "nat \<Rightarrow> (component \<Rightarrow> component) \<Rightarrow> world \<Rightarrow> world" where
  "update_cells i f w =
     w\<lparr>components :=
         (case components w i of
            None \<Rightarrow> components w
          | Some c \<Rightarrow> (components w)(i \<mapsto> f c))\<rparr>"

text \<open>
  The body of \<^verbatim>\<open>useGS\<close>, run at every render of instance \<open>i\<close>: it returns the value
  the component shows (the first element of the pair the hook returns; the second is
  \<^verbatim>\<open>setGS\<close> at \<^verbatim>\<open>key\<close>) and leaves the dependencies \<^verbatim>\<open>[key, val]\<close> of its effect for the
  commit.
\<close>

definition useGS :: "string \<Rightarrow> jsval \<Rightarrow> nat \<Rightarrow> world \<Rightarrow> error + jsval \<times> world" where
  "useGS key initialValue i w =
     (let c = hook_cells i w;
          w1 = (case lookupGS key w of
                  None \<Rightarrow> registerGS key initialValue w
                | Some s \<Rightarrow> w)
      in and_then (read_value key w1) (\<lambda>v.
         and_then (if v = JUndefined then assign_value key initialValue w1 else Inr w1) (\<lambda>w2.
         and_then (read_value key w2) (\<lambda>r.
           Inr (r, w2\<lparr>components :=
                        (components w2)(i \<mapsto> c\<lparr>rendered := Some (key, val c)\<rparr>)\<rparr>)))))"

text \<open>
  The effect of \<^verbatim>\<open>useGS\<close>, with the \<^verbatim>\<open>key\<close> and \<^verbatim>\<open>val\<close> of the render it belongs to. It
  returns the cleanup (the \<^verbatim>\<open>key\<close> and \<^verbatim>\<open>val\<close> its closure holds) or \<^verbatim>\<open>undefined\<close>. The
  array \<^verbatim>\<open>[val, setVal]\<close> is a new object at every evaluation.
\<close>

definition useGS_effect ::
  "string \<Rightarrow> nat \<Rightarrow> nat \<Rightarrow> world \<Rightarrow> error + (string \<times> nat) option \<times> world" where
  "useGS_effect key v i w =
     (case components w i of
        None \<Rightarrow> Inr (None, w)
      | Some c \<Rightarrow>
          if isFirstRender c then
            (let w1 = w\<lparr>components := (components w)(i \<mapsto> c\<lparr>isFirstRender := False\<rparr>)\<rparr>
             in case lookupGS key w1 of
                  Some (Entry e) \<Rightarrow>
                    Inr (Some (key, v),
                         w1\<lparr>next_ref := Suc (next_ref w1),
                            GS := (GS w1)(key \<mapsto>
                              e\<lparr>listeners :=
                                  set_add \<lparr>listener_ref = next_ref w1, listener_val = v,
                                           listener_setVal = i\<rparr> (listeners e)\<rparr>)\<rparr>)
                | Some Inherited \<Rightarrow> Inl TypeError
                | None \<Rightarrow> Inl TypeError)
          else Inr (None, w))"

text \<open>The cleanup the effect returned: \<^verbatim>\<open>GS[key].listeners.delete([val, setVal])\<close>.\<close>

definition useGS_cleanup :: "string \<Rightarrow> nat \<Rightarrow> nat \<Rightarrow> world \<Rightarrow> error + world" where
  "useGS_cleanup key v i w =
     (case lookupGS key w of
        Some (Entry e) \<Rightarrow>
          Inr (w\<lparr>next_ref := Suc (next_ref w),
                 GS := (GS w)(key \<mapsto>
                   e\<lparr>listeners :=
                       set_delete \<lparr>listener_ref = next_ref w, listener_val = v,
                                   listener_setVal = i\<rparr> (listeners e)\<rparr>)\<rparr>)
      | Some Inherited \<Rightarrow> Inl TypeError
      | None \<Rightarrow> Inl TypeError)"

section \<open>The host: React's schedule of renders, effects and cleanups\<close>

text \<open>
  React is not code of this repository. What the hook relies on is modelled here: a
  component instance is rendered (its function body runs); at the commit of a render the
  effect runs if it is the first commit or a dependency differs from the ones of the
  effect that ran last, after the cleanup that run returned, if any; at the unmount the
  cleanup of the last effect run runs, if it returned one. An event the host would not
  issue (for an instance it has unmounted, a commit with nothing rendered) changes
  nothing.
\<close>

definition run_cleanup :: "nat \<Rightarrow> world \<Rightarrow> error + world" where
  "run_cleanup i w =
     (case components w i of
        None \<Rightarrow> Inr w
      | Some c \<Rightarrow>
          (case effect_cleanup c of
             None \<Rightarrow> Inr w
           | Some (key, v) \<Rightarrow> useGS_cleanup key v i w))"

definition render :: "nat \<Rightarrow> string \<Rightarrow> jsval \<Rightarrow> world \<Rightarrow> error + world" where
  "render i key initialValue w =
     (if unmounted (hook_cells i w) then Inr w
      else and_then (useGS key initialValue i w) (\<lambda>(r, w1). Inr w1))"

definition commit :: "nat \<Rightarrow> world \<Rightarrow> error + world" where
  "commit i w =
     (case components w i of
        None \<Rightarrow> Inr w
      | Some c \<Rightarrow>
          if unmounted c then Inr w
          else
            (case rendered c of
               None \<Rightarrow> Inr w
             | Some (key, v) \<Rightarrow>
                 if effect_deps c = Some (key, v)
                 then Inr (update_cells i (\<lambda>c. c\<lparr>rendered := None\<rparr>) w)
                 else
                   and_then (run_cleanup i w) (\<lambda>w1.
                   and_then (useGS_effect key v i w1) (\<lambda>(cleanup, w2).
                     Inr (update_cells i
                            (\<lambda>c. c\<lparr>rendered := None, effect_deps := Some (key, v),
                                   effect_cleanup := cleanup\<rparr>) w2)))))"

definition unmount :: "nat \<Rightarrow> world \<Rightarrow> error + world" where
  "unmount i w =
     (case components w i of
        None \<Rightarrow> Inr w
      | Some c \<Rightarrow>
          if unmounted c then Inr w
          else
            and_then (run_cleanup i w) (\<lambda>w1.
              Inr (update_cells i
                     (\<lambda>c. c\<lparr>rendered := None, effect_cleanup := None, unmounted := True\<rparr>)
                     w1)))"

datatype event =
    Init "(string \<times> jsval) list"
  | Write string jsval
  | Render nat string jsval
  | Commit nat
  | Unmount nat

fun step :: "event \<Rightarrow> world \<Rightarrow> error + world" where
  "step (Init initialState) w = Inr (initGS initialState w)"
| "step (Write key newValue) w = setGS key newValue w"
| "step (Render i key initialValue) w = render i key initialValue w"
| "step (Commit i) w = commit i w"
| "step (Unmount i) w = unmount i w"

fun run :: "event list \<Rightarrow> world \<Rightarrow> error + world" where
  "run [] w = Inr w"
| "run (ev # evs) w = and_then (step ev w) (run evs)"

text \<open>
  What holds of the listener sets in every world a run reaches: a listener was
  allocated before the next fresh reference, it belongs to an instance whose first
  effect has run, and no set holds two listeners of one instance.
\<close>

definition listeners_ok :: "world \<Rightarrow> bool" where
  "listeners_ok w =
     (\<forall>key e. GS w key = Some e \<longrightarrow>
        distinct (map listener_setVal (listeners e)) \<and>
        (\<forall>l \<in> set (listeners e).
           listener_ref l < next_ref w \<and>
           (\<exists>c. components w (listener_setVal l) = Some c \<and> \<not> isFirstRender c)))"

section \<open>Lemmas about the merge policy and the registry\<close>

lemma and_then_Inr: "and_then r f = Inr y \<longleftrightarrow> (\<exists>x. r = Inr x \<and> f x = Inr y)"
  by (cases r) (simp_all add: and_then_def)

lemma and_then_simps [simp]: "and_then (Inr x) f = f x" "and_then (Inl e) f = Inl e"
  by (simp_all add: and_then_def)

lemma lookupGS_Entry: "lookupGS key w = Some (Entry e) \<longleftrightarrow> GS w key = Some e"
  by (auto simp: lookupGS_def split: option.splits)

lemma makeNewValue_falsy: "\<not> truthy old \<or> \<not> truthy newVal \<Longrightarrow> makeNewValue old newVal = newVal"
  by (simp add: makeNewValue_def)

lemma makeNewValue_record: "truthy newVal \<Longrightarrow> makeNewValue (JObj m) newVal = JObj (m ++\<^sub>f own_props newVal)"
  by (simp add: makeNewValue_def)

lemma makeNewValue_not_record: "\<not> is_record old \<Longrightarrow> makeNewValue old newVal = newVal"
  by (cases old) (simp_all add: makeNewValue_def)

lemma lookupGS_registerGS: "lookupGS key (registerGS key v w) = Some (Entry \<lparr>entry_value = v, listeners = []\<rparr>)"
  by (simp add: lookupGS_def registerGS_def)

lemma getGS_registerGS: "getGS key (registerGS key v w) = v"
  by (simp add: getGS_def lookupGS_registerGS)

lemma GS_notify: "GS (notify ls w) = GS w"
  by (induction ls arbitrary: w) (simp_all add: notify_def dispatch_def)

lemma inherited_value_notify: "inherited_value (notify ls w) = inherited_value w"
  by (induction ls arbitrary: w) (simp_all add: notify_def dispatch_def)

lemma next_ref_notify: "next_ref (notify ls w) = next_ref w"
  by (induction ls arbitrary: w) (simp_all add: notify_def dispatch_def)

lemma dispatched_notify: "dispatched (notify ls w) = dispatched w @ map listener_setVal ls"
  by (induction ls arbitrary: w) (simp_all add: notify_def dispatch_def)


lemma lookupGS_notify: "lookupGS key (notify ls w) = lookupGS key w"
  by (simp add: lookupGS_def GS_notify)

lemma getGS_notify: "getGS key (notify ls w) = getGS key w"
  unfolding getGS_def lookupGS_notify inherited_value_notify by (rule refl)

lemma setGS_unregistered: "lookupGS key w = None \<Longrightarrow> setGS key v w = Inr (registerGS key v w)"
  by (simp add: setGS_def)

lemma setGS_entry: "GS w key = Some e \<Longrightarrow> setGS key v w = Inr (notify (listeners e)
                 (w\<lparr>GS := (GS w)(key \<mapsto> e\<lparr>entry_value := makeNewValue (entry_value e) v\<rparr>),
                    history := history w @ [Stored key (makeNewValue (entry_value e) v)]\<rparr>))"
  by (simp add: setGS_def lookupGS_def)

lemma getGS_stored: "getGS key (w\<lparr>GS := (GS w)(key \<mapsto> e), history := h\<rparr>) = entry_value e"
  by (simp add: getGS_def lookupGS_def)

lemma getGS_entry: "GS w key = Some e \<Longrightarrow> getGS key w = entry_value e"
  by (simp add: getGS_def lookupGS_def)

lemma GS_after_setGS_entry: "GS w key = Some e \<Longrightarrow> setGS key v w = Inr w' \<Longrightarrow> GS w' = (GS w)(key \<mapsto> e\<lparr>entry_value := makeNewValue (entry_value e) v\<rparr>)"
  by (auto simp: setGS_entry GS_notify)

lemma lookupGS_cases: "lookupGS key w \<noteq> Some Inherited \<Longrightarrow> lookupGS key w = None \<or> (\<exists>e. GS w key = Some e)"
  by (auto simp: lookupGS_def split: option.splits if_splits)

lemma GS_registerGS: "GS (registerGS key v w) = (GS w)(key \<mapsto> \<lparr>entry_value = v, listeners = []\<rparr>)"
  by (simp add: registerGS_def)

lemma dispatched_registerGS: "dispatched (registerGS key v w) = dispatched w"
  by (simp add: registerGS_def)

lemma initGS_Nil: "initGS [] w = w"
  by (simp add: initGS_def)

lemma initGS_Cons: "initGS ((key, v) # kvs) w = initGS kvs (registerGS key v w)"
  by (simp add: initGS_def)

lemma GS_initGS_other: "K \<notin> fst ` set kvs \<Longrightarrow> GS (initGS kvs w) K = GS w K"
proof (induction kvs arbitrary: w)
  case Nil
  show ?case by (simp add: initGS_Nil)
next
  case (Cons kv kvs)
  obtain key v where kv: "kv = (key, v)" by (cases kv)
  from Cons.prems have "K \<noteq> key" and "K \<notin> fst ` set kvs" by (auto simp: kv)
  then show ?case by (simp add: kv initGS_Cons Cons.IH GS_registerGS)
qed

lemma GS_initGS_member:
  "distinct (map fst kvs) \<Longrightarrow> (K, V) \<in> set kvs \<Longrightarrow>
   GS (initGS kvs w) K = Some \<lparr>entry_value = V, listeners = []\<rparr>"
proof (induction kvs arbitrary: w)
  case Nil
  then show ?case by simp
next
  case (Cons kv kvs)
  obtain key v where kv: "kv = (key, v)" by (cases kv)
  show ?case
  proof (cases "(K, V) = kv")
    case True
    with Cons.prems kv have "K \<notin> fst ` set kvs" by auto
    with True kv show ?thesis by (simp add: initGS_Cons GS_initGS_other GS_registerGS)
  next
    case False
    with Cons.prems have "(K, V) \<in> set kvs" "distinct (map fst kvs)" by auto
    then show ?thesis by (simp add: kv initGS_Cons Cons.IH)
  qed
qed

text \<open>
  Two writes of records, and what is read afterwards: the fields the key held before,
  if it held a record, under those of the first and of the second record.
\<close>

lemma merge_twice:
  "makeNewValue (makeNewValue X (JObj V1)) (JObj V2) =
     JObj ((case X of JObj m \<Rightarrow> m | _ \<Rightarrow> fmempty) ++\<^sub>f V1 ++\<^sub>f V2)"
  by (cases X) (simp_all add: makeNewValue_def)

lemma write_twice_reads_merge:
  assumes "lookupGS K w \<noteq> Some Inherited"
  shows "\<exists>w1 w2. setGS K (JObj V1) w = Inr w1 \<and> setGS K (JObj V2) w1 = Inr w2 \<and>
           getGS K w2 =
             JObj ((case getGS K w of JObj m \<Rightarrow> m | _ \<Rightarrow> fmempty) ++\<^sub>f V1 ++\<^sub>f V2)"
proof -
  have "\<exists>w1 e1. setGS K (JObj V1) w = Inr w1 \<and> GS w1 K = Some e1 \<and>
          entry_value e1 = makeNewValue (getGS K w) (JObj V1)"
    using lookupGS_cases [OF assms]
  proof (elim disjE exE)
    assume "lookupGS K w = None"
    then show ?thesis
      by (simp add: setGS_unregistered registerGS_def getGS_def makeNewValue_def)
  next
    fix e assume "GS w K = Some e"
    then show ?thesis
      by (simp add: setGS_entry GS_notify getGS_entry)
  qed
  then obtain w1 e1 where w1: "setGS K (JObj V1) w = Inr w1" and e1: "GS w1 K = Some e1"
    and v1: "entry_value e1 = makeNewValue (getGS K w) (JObj V1)"
    by (elim exE conjE) (rule that)
  let ?w2 = "notify (listeners e1)
    (w1\<lparr>GS := (GS w1)(K \<mapsto> e1\<lparr>entry_value := makeNewValue (entry_value e1) (JObj V2)\<rparr>),
        history := history w1 @ [Stored K (makeNewValue (entry_value e1) (JObj V2))]\<rparr>)"
  have 2: "setGS K (JObj V2) w1 = Inr ?w2" by (rule setGS_entry [OF e1])
  have 3: "getGS K ?w2 =
      JObj ((case getGS K w of JObj m \<Rightarrow> m | _ \<Rightarrow> fmempty) ++\<^sub>f V1 ++\<^sub>f V2)"
    by (simp add: getGS_notify getGS_stored v1 merge_twice)
  from w1 2 3 show ?thesis
    by (intro exI [of _ w1] exI [of _ ?w2]) simp
qed

lemma union_iff_no_other_key:
  "JObj ((case X of JObj m \<Rightarrow> m | _ \<Rightarrow> fmempty) ++\<^sub>f V1 ++\<^sub>f V2) = JObj (V1 ++\<^sub>f V2) \<longleftrightarrow>
   record_keys X |\<subseteq>| fmdom V1 |\<union>| fmdom V2"
proof -
  have "m ++\<^sub>f V1 ++\<^sub>f V2 = V1 ++\<^sub>f V2 \<longleftrightarrow> fmdom m |\<subseteq>| fmdom V1 |\<union>| fmdom V2" for m
  proof
    assume eq: "m ++\<^sub>f V1 ++\<^sub>f V2 = V1 ++\<^sub>f V2"
    show "fmdom m |\<subseteq>| fmdom V1 |\<union>| fmdom V2"
    proof
      fix k assume k: "k |\<in>| fmdom m"
      show "k |\<in>| fmdom V1 |\<union>| fmdom V2"
      proof (rule ccontr)
        assume "k |\<notin>| fmdom V1 |\<union>| fmdom V2"
        then have "fmlookup (m ++\<^sub>f V1 ++\<^sub>f V2) k = fmlookup m k"
          and "fmlookup (V1 ++\<^sub>f V2) k = None"
          by (auto simp: fmdom_notD)
        with eq k show False by (auto simp: fmdom_notI)
      qed
    qed
  next
    assume sub: "fmdom m |\<subseteq>| fmdom V1 |\<union>| fmdom V2"
    show "m ++\<^sub>f V1 ++\<^sub>f V2 = V1 ++\<^sub>f V2"
    proof (rule fmap_ext)
      fix k
      show "fmlookup (m ++\<^sub>f V1 ++\<^sub>f V2) k = fmlookup (V1 ++\<^sub>f V2) k"
      proof (cases "k |\<in>| fmdom V1 |\<union>| fmdom V2")
        case True
        then show ?thesis by auto
      next
        case False
        with sub have "k |\<notin>| fmdom m" by auto
        with False show ?thesis by (auto simp: fmdom_notD)
      qed
    qed
  qed
  from this [of "case X of JObj m \<Rightarrow> m | _ \<Rightarrow> fmempty"] show ?thesis
    by (cases X) simp_all
qed

text \<open>
  At a key where \<^verbatim>\<open>GS[key]\<close> is \<^verbatim>\<open>undefined\<close> a read returns \<^verbatim>\<open>null\<close>, and a write
  adds the entry, with the value as it is and the empty listener set, and calls no
  state setter.
\<close>

lemma getGS_unregistered: "lookupGS key w = None \<Longrightarrow> getGS key w = JNull"
  by (simp add: getGS_def)

lemma setGS_unregistered_creates:
  assumes "lookupGS key w = None"
  shows "\<exists>w'. setGS key newValue w = Inr w' \<and>
           GS w' = (GS w)(key \<mapsto> \<lparr>entry_value = newValue, listeners = []\<rparr>) \<and>
           getGS key w' = newValue \<and>
           dispatched w' = dispatched w \<and> components w' = components w"
  using assms
  by (simp add: setGS_unregistered GS_registerGS getGS_registerGS) (simp add: registerGS_def)


section \<open>Lemmas about the listener sets\<close>

lemma listeners_ok_initial: "listeners_ok initial_world"
  by (simp add: listeners_ok_def initial_world_def)

lemma listeners_ok_preserved:
  assumes ok: "listeners_ok w"
    and ls: "\<And>key e'. GS w' key = Some e' \<Longrightarrow>
               listeners e' = [] \<or> (\<exists>e. GS w key = Some e \<and> listeners e' = listeners e)"
    and refs: "next_ref w \<le> next_ref w'"
    and cells: "\<And>i c. components w i = Some c \<Longrightarrow> \<not> isFirstRender c \<Longrightarrow>
                  \<exists>c'. components w' i = Some c' \<and> \<not> isFirstRender c'"
  shows "listeners_ok w'"
  unfolding listeners_ok_def
proof (intro allI impI)
  fix key e'
  assume e': "GS w' key = Some e'"
  from ls [OF e'] show "distinct (map listener_setVal (listeners e')) \<and>
        (\<forall>l \<in> set (listeners e').
           listener_ref l < next_ref w' \<and>
           (\<exists>c. components w' (listener_setVal l) = Some c \<and> \<not> isFirstRender c))"
  proof
    assume "listeners e' = []"
    then show ?thesis by simp
  next
    assume "\<exists>e. GS w key = Some e \<and> listeners e' = listeners e"
    then obtain e where e: "GS w key = Some e" and same: "listeners e' = listeners e"
      by blast
    have "listener_ref l < next_ref w' \<and>
           (\<exists>c. components w' (listener_setVal l) = Some c \<and> \<not> isFirstRender c)"
      if "l \<in> set (listeners e)" for l
    proof -
      from that ok e have "listener_ref l < next_ref w"
        and "\<exists>c. components w (listener_setVal l) = Some c \<and> \<not> isFirstRender c"
        unfolding listeners_ok_def by blast+
      with refs cells show ?thesis by fastforce
    qed
    moreover from ok e have "distinct (map listener_setVal (listeners e))"
      unfolding listeners_ok_def by blast
    ultimately show ?thesis by (simp add: same)
  qed
qed

lemma listeners_ok_distinct:
  "listeners_ok w \<Longrightarrow> GS w key = Some e \<Longrightarrow> distinct (map listener_setVal (listeners e))"
  unfolding listeners_ok_def by blast

lemma listeners_ok_ref:
  "listeners_ok w \<Longrightarrow> GS w key = Some e \<Longrightarrow> l \<in> set (listeners e) \<Longrightarrow> listener_ref l < next_ref w"
  unfolding listeners_ok_def by blast

lemma listeners_ok_cells:
  "listeners_ok w \<Longrightarrow> GS w key = Some e \<Longrightarrow> l \<in> set (listeners e) \<Longrightarrow>
   \<exists>c. components w (listener_setVal l) = Some c \<and> \<not> isFirstRender c"
  unfolding listeners_ok_def by blast

lemma listeners_ok_registerGS: "listeners_ok w \<Longrightarrow> listeners_ok (registerGS key v w)"
proof (erule listeners_ok_preserved)
  fix k e'
  assume "GS (registerGS key v w) k = Some e'"
  then show "listeners e' = [] \<or> (\<exists>e. GS w k = Some e \<and> listeners e' = listeners e)"
    by (cases "k = key") (auto simp: GS_registerGS)
qed (simp_all add: registerGS_def)

lemma listeners_ok_initGS: "listeners_ok w \<Longrightarrow> listeners_ok (initGS kvs w)"
proof (induction kvs arbitrary: w)
  case Nil
  then show ?case by (simp add: initGS_Nil)
next
  case (Cons kv kvs)
  then show ?case by (cases kv) (simp add: initGS_Cons listeners_ok_registerGS)
qed

lemma components_notify_cells:
  "components w i = Some c \<Longrightarrow> \<exists>c'. components (notify ls w) i = Some c' \<and> isFirstRender c' = isFirstRender c"
proof (induction ls arbitrary: w c)
  case Nil
  then show ?case by (simp add: notify_def)
next
  case (Cons l ls)
  have "\<exists>c1. components (dispatch (listener_setVal l) w) i = Some c1 \<and> isFirstRender c1 = isFirstRender c"
    using Cons.prems by (auto simp: dispatch_def split: option.splits)
  then obtain c1 where "components (dispatch (listener_setVal l) w) i = Some c1" "isFirstRender c1 = isFirstRender c"
    by blast
  from Cons.IH [OF this(1)] this(2) show ?case by (simp add: notify_def)
qed

lemma listeners_ok_setGS:
  assumes ok: "listeners_ok w" and s: "setGS key v w = Inr w'"
  shows "listeners_ok w'"
proof (cases "lookupGS key w")
  case None
  with s have "w' = registerGS key v w" by (simp add: setGS_def)
  with ok show ?thesis by (simp add: listeners_ok_registerGS)
next
  case (Some sl)
  with s obtain e where e: "GS w key = Some e"
    by (cases sl) (auto simp: setGS_def lookupGS_def split: option.splits if_splits)
  let ?w1 = "w\<lparr>GS := (GS w)(key \<mapsto> e\<lparr>entry_value := makeNewValue (entry_value e) v\<rparr>),
               history := history w @ [Stored key (makeNewValue (entry_value e) v)]\<rparr>"
  from s e have w': "w' = notify (listeners e) ?w1" by (simp add: setGS_entry)
  show ?thesis
  proof (rule listeners_ok_preserved [OF ok])
    fix k e'
    assume "GS w' k = Some e'"
    then show "listeners e' = [] \<or> (\<exists>e. GS w k = Some e \<and> listeners e' = listeners e)"
      using e by (cases "k = key") (auto simp: w' GS_notify)
  next
    show "next_ref w \<le> next_ref w'" by (simp add: w' next_ref_notify)
  next
    fix i c
    assume "components w i = Some c" "\<not> isFirstRender c"
    then show "\<exists>c'. components w' i = Some c' \<and> \<not> isFirstRender c'"
      using components_notify_cells [of ?w1 i c "listeners e"] by (auto simp: w')
  qed
qed

lemma assign_value_frame:
  assumes "assign_value key v w = Inr w'"
  shows "components w' = components w" and "next_ref w' = next_ref w"
    and "dispatched w' = dispatched w"
    and "GS w' k = Some e' \<Longrightarrow> \<exists>e. GS w k = Some e \<and> listeners e' = listeners e"
proof -
  show "components w' = components w" "next_ref w' = next_ref w" "dispatched w' = dispatched w"
    using assms by (auto simp: assign_value_def split: option.splits slot.splits)
  assume "GS w' k = Some e'"
  with assms show "\<exists>e. GS w k = Some e \<and> listeners e' = listeners e"
    by (cases "k = key") (auto simp: assign_value_def lookupGS_Entry split: option.splits slot.splits)
qed

lemma listeners_ok_assign_value:
  "listeners_ok w \<Longrightarrow> assign_value key v w = Inr w' \<Longrightarrow> listeners_ok w'"
  by (erule listeners_ok_preserved) (auto dest: assign_value_frame)

lemma listeners_ok_components:
  assumes ok: "listeners_ok w"
    and cells: "\<And>j c. components w j = Some c \<Longrightarrow> \<not> isFirstRender c \<Longrightarrow>
                  \<exists>c'. cs j = Some c' \<and> \<not> isFirstRender c'"
  shows "listeners_ok (w\<lparr>components := cs\<rparr>)"
  by (rule listeners_ok_preserved [OF ok]) (auto dest: cells)

lemma isFirstRender_hook_cells:
  "components w i = Some c \<Longrightarrow> isFirstRender (hook_cells i w) = isFirstRender c"
  by (simp add: hook_cells_def)

lemma listeners_ok_useGS:
  assumes ok: "listeners_ok w" and u: "useGS key initialValue i w = Inr (r, w')"
  shows "listeners_ok w'"
proof -
  define w1 where "w1 = (case lookupGS key w of None \<Rightarrow> registerGS key initialValue w | Some s \<Rightarrow> w)"
  have ok1: "listeners_ok w1"
    using ok by (simp add: w1_def listeners_ok_registerGS split: option.splits)
  have c1: "components w1 = components w"
    by (simp add: w1_def registerGS_def split: option.splits)
  from u obtain v w2 where v: "read_value key w1 = Inr v"
    and w2: "(if v = JUndefined then assign_value key initialValue w1 else Inr w1) = Inr w2"
    and w': "w' = w2\<lparr>components := (components w2)(i \<mapsto> (hook_cells i w)\<lparr>rendered := Some (key, val (hook_cells i w))\<rparr>)\<rparr>"
    by (auto simp: useGS_def Let_def w1_def [symmetric] and_then_Inr)
  from w2 ok1 c1 have ok2: "listeners_ok w2" and c2: "components w2 = components w"
    by (auto split: if_splits dest: listeners_ok_assign_value assign_value_frame)
  show ?thesis
    unfolding w'
    by (rule listeners_ok_components [OF ok2]) (auto simp: c2 isFirstRender_hook_cells)
qed

text \<open>The cleanup removes nothing: the array it looks for is a new one.\<close>

lemma set_delete_fresh: "\<forall>x \<in> set ls. listener_ref x \<noteq> listener_ref l \<Longrightarrow> set_delete l ls = ls"
  by (simp add: set_delete_def)

lemma set_add_fresh: "\<forall>x \<in> set ls. listener_ref x \<noteq> listener_ref l \<Longrightarrow> set_add l ls = ls @ [l]"
  by (auto simp: set_add_def)

lemma useGS_cleanup_removes_nothing:
  assumes ok: "listeners_ok w" and c: "useGS_cleanup key v i w = Inr w'"
  shows "w' = w\<lparr>next_ref := Suc (next_ref w)\<rparr>"
proof -
  from c obtain e where e: "GS w key = Some e"
    and w': "w' = w\<lparr>next_ref := Suc (next_ref w),
                 GS := (GS w)(key \<mapsto>
                   e\<lparr>listeners :=
                       set_delete \<lparr>listener_ref = next_ref w, listener_val = v,
                                   listener_setVal = i\<rparr> (listeners e)\<rparr>)\<rparr>"
    by (auto simp: useGS_cleanup_def lookupGS_Entry split: option.splits slot.splits)
  have "set_delete \<lparr>listener_ref = next_ref w, listener_val = v, listener_setVal = i\<rparr> (listeners e) = listeners e"
    by (intro set_delete_fresh) (auto dest: listeners_ok_ref [OF ok e])
  then show ?thesis using e by (simp add: w' map_upd_triv)
qed

lemma listeners_ok_next_ref: "listeners_ok w \<Longrightarrow> listeners_ok (w\<lparr>next_ref := Suc (next_ref w)\<rparr>)"
  by (erule listeners_ok_preserved) auto

lemma listeners_ok_useGS_cleanup:
  "listeners_ok w \<Longrightarrow> useGS_cleanup key v i w = Inr w' \<Longrightarrow> listeners_ok w'"
  by (frule (1) useGS_cleanup_removes_nothing) (simp add: listeners_ok_next_ref)

lemma run_cleanup_removes_nothing:
  assumes "listeners_ok w" and "run_cleanup i w = Inr w'"
  shows "GS w' = GS w \<and> components w' = components w \<and> dispatched w' = dispatched w \<and> listeners_ok w'"
proof (cases "\<exists>c key v. components w i = Some c \<and> effect_cleanup c = Some (key, v)")
  case True
  then obtain c key v where "components w i = Some c" "effect_cleanup c = Some (key, v)"
    by blast
  with assms have "useGS_cleanup key v i w = Inr w'" by (simp add: run_cleanup_def)
  from useGS_cleanup_removes_nothing [OF assms(1) this] assms(1) show ?thesis
    by (simp add: listeners_ok_next_ref)
next
  case False
  with assms have "w' = w" by (auto simp: run_cleanup_def split: option.splits)
  with assms show ?thesis by simp
qed

lemma listeners_ok_update_cells:
  assumes "listeners_ok w" and "\<And>c. isFirstRender (f c) = isFirstRender c"
  shows "listeners_ok (update_cells i f w)"
  unfolding update_cells_def
  by (rule listeners_ok_components [OF assms(1)]) (auto simp: assms(2) split: option.splits)

lemma GS_update_cells: "GS (update_cells i f w) = GS w"
  by (simp add: update_cells_def)

text \<open>An effect that is not the first of its instance adds nothing.\<close>

lemma useGS_effect_later:
  "components w i = Some c \<Longrightarrow> \<not> isFirstRender c \<Longrightarrow> useGS_effect key v i w = Inr (None, w)"
  by (simp add: useGS_effect_def)

lemma listeners_ok_useGS_effect:
  assumes ok: "listeners_ok w" and eff: "useGS_effect key v i w = Inr (cl, w')"
  shows "listeners_ok w'"
proof (cases "\<exists>c. components w i = Some c \<and> isFirstRender c")
  case False
  with eff have "w' = w"
    by (auto simp: useGS_effect_def split: option.splits if_splits)
  with ok show ?thesis by simp
next
  case True
  then obtain c where c: "components w i = Some c" and first: "isFirstRender c" by blast
  let ?l = "\<lparr>listener_ref = next_ref w, listener_val = v, listener_setVal = i\<rparr>"
  from eff c first obtain e where e: "GS w key = Some e"
    and w': "w' = w\<lparr>components := (components w)(i \<mapsto> c\<lparr>isFirstRender := False\<rparr>),
                    next_ref := Suc (next_ref w),
                    GS := (GS w)(key \<mapsto> e\<lparr>listeners := set_add ?l (listeners e)\<rparr>)\<rparr>"
    by (auto simp: useGS_effect_def Let_def lookupGS_def split: option.splits slot.splits if_splits)
  have add: "set_add ?l (listeners e) = listeners e @ [?l]"
    by (intro set_add_fresh) (auto dest: listeners_ok_ref [OF ok e])
  have none: "i \<notin> listener_setVal ` set (listeners e')" if "GS w k = Some e'" for k e'
    using c first by (auto dest!: listeners_ok_cells [OF ok that])
  show ?thesis
    unfolding listeners_ok_def
  proof (intro allI impI)
    fix k e'
    assume k: "GS w' k = Some e'"
    show "distinct (map listener_setVal (listeners e')) \<and>
        (\<forall>l \<in> set (listeners e').
           listener_ref l < next_ref w' \<and>
           (\<exists>c. components w' (listener_setVal l) = Some c \<and> \<not> isFirstRender c))"
    proof (cases "k = key")
      case True
      with k have ls: "listeners e' = listeners e @ [?l]" by (auto simp: w' add)
      have "distinct (map listener_setVal (listeners e))"
        by (rule listeners_ok_distinct [OF ok e])
      moreover have "listener_ref l < Suc (next_ref w)" if "l \<in> set (listeners e)" for l
        using listeners_ok_ref [OF ok e that] by simp
      moreover have "\<exists>c'. ((components w)(i \<mapsto> c\<lparr>isFirstRender := False\<rparr>)) (listener_setVal l) = Some c' \<and> \<not> isFirstRender c'"
        if "l \<in> set (listeners e)" for l
        using listeners_ok_cells [OF ok e that] by auto
      ultimately show ?thesis using none [OF e] by (auto simp: ls w')
    next
      case False
      with k have old: "GS w k = Some e'" by (simp add: w')
      have "distinct (map listener_setVal (listeners e'))"
        by (rule listeners_ok_distinct [OF ok old])
      moreover have "listener_ref l < Suc (next_ref w)" if "l \<in> set (listeners e')" for l
        using listeners_ok_ref [OF ok old that] by simp
      moreover have "\<exists>c'. ((components w)(i \<mapsto> c\<lparr>isFirstRender := False\<rparr>)) (listener_setVal l) = Some c' \<and> \<not> isFirstRender c'"
        if "l \<in> set (listeners e')" for l
        using listeners_ok_cells [OF ok old that] by auto
      ultimately show ?thesis by (auto simp: w')
    qed
  qed
qed

lemma listeners_ok_render:
  "listeners_ok w \<Longrightarrow> render i key initialValue w = Inr w' \<Longrightarrow> listeners_ok w'"
  by (auto simp: render_def and_then_Inr split: if_splits dest: listeners_ok_useGS)

lemma listeners_ok_commit:
  assumes ok: "listeners_ok w" and c: "commit i w = Inr w'"
  shows "listeners_ok w'"
proof (cases "\<exists>c key v. components w i = Some c \<and> \<not> unmounted c \<and> rendered c = Some (key, v)")
  case False
  with c have "w' = w" by (auto simp: commit_def split: option.splits if_splits)
  with ok show ?thesis by simp
next
  case True
  then obtain c0 key v where c0: "components w i = Some c0" "\<not> unmounted c0" "rendered c0 = Some (key, v)"
    by blast
  show ?thesis
  proof (cases "effect_deps c0 = Some (key, v)")
    case True
    with c c0 have "w' = update_cells i (\<lambda>c. c\<lparr>rendered := None\<rparr>) w" by (simp add: commit_def)
    with ok show ?thesis by (simp add: listeners_ok_update_cells)
  next
    case False
    with c c0 obtain w1 cl w2 where w1: "run_cleanup i w = Inr w1"
      and w2: "useGS_effect key v i w1 = Inr (cl, w2)"
      and w': "w' = update_cells i (\<lambda>c. c\<lparr>rendered := None, effect_deps := Some (key, v), effect_cleanup := cl\<rparr>) w2"
      by (auto simp: commit_def and_then_Inr)
    from run_cleanup_removes_nothing [OF ok w1] have "listeners_ok w1" by simp
    from listeners_ok_useGS_effect [OF this w2] show ?thesis
      by (simp add: w' listeners_ok_update_cells)
  qed
qed

lemma listeners_ok_unmount:
  assumes ok: "listeners_ok w" and u: "unmount i w = Inr w'"
  shows "listeners_ok w'"
proof (cases "\<exists>c. components w i = Some c \<and> \<not> unmounted c")
  case False
  with u have "w' = w" by (auto simp: unmount_def split: option.splits if_splits)
  with ok show ?thesis by simp
next
  case True
  with u obtain w1 where w1: "run_cleanup i w = Inr w1"
    and w': "w' = update_cells i (\<lambda>c. c\<lparr>rendered := None, effect_cleanup := None, unmounted := True\<rparr>) w1"
    by (auto simp: unmount_def and_then_Inr)
  from run_cleanup_removes_nothing [OF ok w1] show ?thesis
    by (simp add: w' listeners_ok_update_cells)
qed

lemma listeners_ok_step: "listeners_ok w \<Longrightarrow> step ev w = Inr w' \<Longrightarrow> listeners_ok w'"
  by (cases ev)
     (auto intro: listeners_ok_initGS listeners_ok_setGS listeners_ok_render
        listeners_ok_commit listeners_ok_unmount)

lemma listeners_ok_run: "listeners_ok w \<Longrightarrow> run evs w = Inr w' \<Longrightarrow> listeners_ok w'"
  by (induction evs arbitrary: w) (auto simp: and_then_Inr dest: listeners_ok_step)

text \<open>Unmounting leaves every listener where it is.\<close>

lemma unmount_removes_nothing:
  assumes ok: "listeners_ok w" and u: "unmount i w = Inr w'"
  shows "GS w' = GS w"
proof (cases "\<exists>c. components w i = Some c \<and> \<not> unmounted c")
  case False
  with u show ?thesis by (auto simp: unmount_def split: option.splits if_splits)
next
  case True
  with u obtain w1 where w1: "run_cleanup i w = Inr w1"
    and w': "w' = update_cells i (\<lambda>c. c\<lparr>rendered := None, effect_cleanup := None, unmounted := True\<rparr>) w1"
    by (auto simp: unmount_def and_then_Inr)
  from run_cleanup_removes_nothing [OF ok w1] show ?thesis
    by (simp add: w' GS_update_cells)
qed

text \<open>After the first effect of an instance, no commit of it changes a listener set.\<close>

lemma commit_later_adds_nothing:
  assumes ok: "listeners_ok w" and c: "components w i = Some c0" "\<not> isFirstRender c0"
    and cm: "commit i w = Inr w'"
  shows "GS w' = GS w"
proof (cases "\<not> unmounted c0 \<and> (\<exists>key v. rendered c0 = Some (key, v) \<and> effect_deps c0 \<noteq> Some (key, v))")
  case False
  with cm c show ?thesis
    by (auto simp: commit_def GS_update_cells split: option.splits if_splits)
next
  case True
  then obtain key v where r: "\<not> unmounted c0" "rendered c0 = Some (key, v)" "effect_deps c0 \<noteq> Some (key, v)"
    by blast
  with cm c obtain w1 cl w2 where w1: "run_cleanup i w = Inr w1"
    and w2: "useGS_effect key v i w1 = Inr (cl, w2)"
    and w': "w' = update_cells i (\<lambda>c. c\<lparr>rendered := None, effect_deps := Some (key, v), effect_cleanup := cl\<rparr>) w2"
    by (auto simp: commit_def and_then_Inr)
  from run_cleanup_removes_nothing [OF ok w1] have 1: "GS w1 = GS w" "components w1 = components w"
    by simp_all
  with c w2 have "w2 = w1" by (simp add: useGS_effect_later)
  with 1 show ?thesis by (simp add: w' GS_update_cells)
qed

text \<open>A render changes no listener set; the entry it may add has the empty one.\<close>

lemma useGS_listeners:
  assumes u: "useGS key initialValue i w = Inr (r, w')" and k: "GS w' k = Some e'"
  shows "listeners e' = [] \<or> (\<exists>e. GS w k = Some e \<and> listeners e' = listeners e)"
proof -
  define w1 where
    "w1 = (case lookupGS key w of None \<Rightarrow> registerGS key initialValue w | Some s \<Rightarrow> w)"
  from u obtain v w2 where
    w2: "(if v = JUndefined then assign_value key initialValue w1 else Inr w1) = Inr w2"
    and w': "w' = w2\<lparr>components := (components w2)(i \<mapsto>
                 (hook_cells i w)\<lparr>rendered := Some (key, val (hook_cells i w))\<rparr>)\<rparr>"
    by (auto simp: useGS_def Let_def w1_def [symmetric] and_then_Inr)
  from k have "GS w2 k = Some e'" by (simp add: w')
  with w2 have "\<exists>e1. GS w1 k = Some e1 \<and> listeners e' = listeners e1"
    by (auto split: if_splits dest: assign_value_frame(4))
  then obtain e1 where e1: "GS w1 k = Some e1" and same: "listeners e' = listeners e1"
    by (elim exE conjE) (rule that)
  from e1 have "listeners e1 = [] \<or> (\<exists>e. GS w k = Some e \<and> listeners e1 = listeners e)"
    by (cases "k = key") (auto simp: w1_def GS_registerGS split: option.splits)
  with same show ?thesis by simp
qed

lemma useGS_cells:
  assumes u: "useGS key initialValue i w = Inr (r, w')" and c: "components w i = Some c"
  shows "\<exists>c'. components w' i = Some c' \<and> isFirstRender c' = isFirstRender c"
proof -
  define w1 where
    "w1 = (case lookupGS key w of None \<Rightarrow> registerGS key initialValue w | Some s \<Rightarrow> w)"
  from u obtain w2 where
    w': "w' = w2\<lparr>components := (components w2)(i \<mapsto>
                 (hook_cells i w)\<lparr>rendered := Some (key, val (hook_cells i w))\<rparr>)\<rparr>"
    by (auto simp: useGS_def Let_def w1_def [symmetric] and_then_Inr)
  show ?thesis by (simp add: w' isFirstRender_hook_cells [OF c])
qed

lemma rerender_adds_nothing:
  assumes ok: "listeners_ok w" and c: "components w i = Some c" "\<not> isFirstRender c"
    and r: "render i key initialValue w = Inr w1" and cm: "commit i w1 = Inr w2"
    and k: "GS w2 k = Some e2"
  shows "listeners e2 = [] \<or> (\<exists>e. GS w k = Some e \<and> listeners e2 = listeners e)"
proof (cases "unmounted (hook_cells i w)")
  case True
  with r have "w1 = w" by (simp add: render_def)
  with commit_later_adds_nothing [OF _ _ _ cm] ok c k show ?thesis by auto
next
  case False
  with r obtain v where u: "useGS key initialValue i w = Inr (v, w1)"
    by (auto simp: render_def and_then_Inr)
  from useGS_cells [OF u c(1)] c(2) obtain c1 where c1: "components w1 i = Some c1" "\<not> isFirstRender c1"
    by auto
  from listeners_ok_useGS [OF ok u] have ok1: "listeners_ok w1" .
  from commit_later_adds_nothing [OF ok1 c1 cm] k have "GS w1 k = Some e2" by simp
  from useGS_listeners [OF u this] show ?thesis .
qed

section \<open>Evaluation of concrete runs\<close>

lemmas eval_defs = render_def useGS_def hook_cells_def fresh_component_def lookupGS_def
  initial_world_def Object_prototype_names_def registerGS_def read_value_def assign_value_def
  commit_def run_cleanup_def useGS_effect_def set_add_def update_cells_def unmount_def
  useGS_cleanup_def set_delete_def setGS_def notify_def dispatch_def makeNewValue_def Let_def
  initGS_def getGS_def

section \<open>The claims\<close>

text \<open>
  C1, as amended. Let \<^verbatim>\<open>GS[K]\<close> be \<^verbatim>\<open>undefined\<close> or an entry of the registry. Then
  \<^verbatim>\<open>setGS(K, V1)\<close> and \<^verbatim>\<open>setGS(K, V2)\<close> both return, and \<^verbatim>\<open>getGS(K)\<close> is \<open>V2\<close>
  afterwards if \<open>V1\<close> or \<open>V2\<close> is falsy, or if \<open>V2\<close> is a scalar and the value held
  under \<open>K\<close> after the first write is not a keyed record.
\<close>

theorem write_twice_reads_second:
  assumes "lookupGS K w \<noteq> Some Inherited"
  shows "\<exists>w1 w2. setGS K V1 w = Inr w1 \<and> setGS K V2 w1 = Inr w2 \<and>
           (\<not> truthy V1 \<or> \<not> truthy V2 \<or> (is_scalar V2 \<and> \<not> is_record (getGS K w1))
              \<longrightarrow> getGS K w2 = V2)"
proof -
  have "\<exists>w1 e1. setGS K V1 w = Inr w1 \<and> GS w1 K = Some e1 \<and>
          (\<not> truthy V1 \<longrightarrow> \<not> truthy (entry_value e1))"
    using lookupGS_cases [OF assms]
  proof (elim disjE exE)
    assume "lookupGS K w = None"
    then show ?thesis
      by (simp add: setGS_unregistered registerGS_def)
  next
    fix e assume "GS w K = Some e"
    then show ?thesis
      by (simp add: setGS_entry GS_notify makeNewValue_falsy)
  qed
  then obtain w1 e1 where w1: "setGS K V1 w = Inr w1" and e1: "GS w1 K = Some e1"
    and falsy: "\<not> truthy V1 \<Longrightarrow> \<not> truthy (entry_value e1)"
    by blast
  let ?w2 = "notify (listeners e1)
    (w1\<lparr>GS := (GS w1)(K \<mapsto> e1\<lparr>entry_value := makeNewValue (entry_value e1) V2\<rparr>),
        history := history w1 @ [Stored K (makeNewValue (entry_value e1) V2)]\<rparr>)"
  have w2: "setGS K V2 w1 = Inr ?w2" by (simp add: e1 setGS_entry)
  have read: "getGS K ?w2 = makeNewValue (entry_value e1) V2"
    by (simp add: getGS_notify getGS_stored)
  have stored: "getGS K w1 = entry_value e1" by (simp add: e1 getGS_entry)
  have "getGS K ?w2 = V2"
    if "\<not> truthy V1 \<or> \<not> truthy V2 \<or> (is_scalar V2 \<and> \<not> is_record (getGS K w1))"
    using that falsy by (auto simp: read stored makeNewValue_falsy makeNewValue_not_record)
  with w1 w2 show ?thesis by blast
qed

theorem write_twice_reads_second_witness:
  "lookupGS ''K'' initial_world \<noteq> Some Inherited \<and> is_scalar (JStr ''b'') \<and>
   (\<exists>w1 w2. setGS ''K'' (JStr ''a'') initial_world = Inr w1 \<and>
      \<not> is_record (getGS ''K'' w1) \<and>
      setGS ''K'' (JStr ''b'') w1 = Inr w2 \<and> getGS ''K'' w2 = JStr ''b'')"
proof -
  have h: "lookupGS ''K'' initial_world \<noteq> Some Inherited"
    by (simp add: lookupGS_def initial_world_def Object_prototype_names_def)
  from write_twice_reads_second [OF h, of "JStr ''a''" "JStr ''b''"]
  obtain w1 w2 where w1: "setGS ''K'' (JStr ''a'') initial_world = Inr w1"
    and w2: "setGS ''K'' (JStr ''b'') w1 = Inr w2"
    and r: "is_scalar (JStr ''b'') \<and> \<not> is_record (getGS ''K'' w1) \<longrightarrow> getGS ''K'' w2 = JStr ''b''"
    by auto
  from w1 have "\<not> is_record (getGS ''K'' w1)" by (auto simp: eval_defs)
  with h w1 w2 r show ?thesis by auto
qed

text \<open>
  C1 as stated fails where the first value is a keyed record and the second a truthy
  scalar: the spread keeps the record, to which a number adds no property.
\<close>

theorem write_scalar_over_record_counterexample:
  "is_scalar (JNum (Rational 5)) \<and>
   (\<exists>w1 w2. setGS ''K'' (JObj (fmupd ''a'' (JNum (Rational 1)) fmempty)) initial_world = Inr w1 \<and>
      setGS ''K'' (JNum (Rational 5)) w1 = Inr w2 \<and>
      getGS ''K'' w2 = JObj (fmupd ''a'' (JNum (Rational 1)) fmempty) \<and>
      getGS ''K'' w2 \<noteq> JNum (Rational 5))"
  by (simp add: eval_defs)

text \<open>
  C2, at an input where the code breaks it. A component that uses the key \<^verbatim>\<open>K\<close> is
  mounted and unmounted; then \<^verbatim>\<open>K\<close> is written. The listener set of \<^verbatim>\<open>K\<close> still holds
  the listener of the unmounted instance, and the write calls its state setter.
\<close>

theorem unmount_keeps_listener:
  "\<exists>w e. run [Render 0 ''K'' JUndefined, Commit 0, Unmount 0, Write ''K'' (JBool True)]
           initial_world = Inr w \<and>
     GS w ''K'' = Some e \<and> map listener_setVal (listeners e) = [0] \<and> dispatched w = [0]"
  by (simp add: eval_defs)

text \<open>
  C3, at an input where the code breaks it. A component is mounted with the key \<^verbatim>\<open>K1\<close>
  and rendered again with the key \<^verbatim>\<open>K2\<close>. Its listener stays in the set of \<^verbatim>\<open>K1\<close>, the
  set of \<^verbatim>\<open>K2\<close> stays empty: a write to \<^verbatim>\<open>K2\<close> calls no state setter, a write to \<^verbatim>\<open>K1\<close>
  calls the one of the instance.
\<close>

theorem key_change_keeps_stale_listener:
  "\<exists>w e1 e2 w2 w1.
     run [Render 0 ''K1'' JUndefined, Commit 0, Render 0 ''K2'' JUndefined, Commit 0]
       initial_world = Inr w \<and>
     GS w ''K1'' = Some e1 \<and> map listener_setVal (listeners e1) = [0] \<and>
     GS w ''K2'' = Some e2 \<and> listeners e2 = [] \<and>
     setGS ''K2'' (JBool True) w = Inr w2 \<and> dispatched w2 = [] \<and>
     setGS ''K1'' (JBool True) w = Inr w1 \<and> dispatched w1 = [0]"
  by (simp add: eval_defs)

text \<open>
  C4, as amended. For a keyed record \<open>old\<close> (truthy, as every object is) and a truthy
  \<open>newValue\<close>, \<^verbatim>\<open>makeNewValue\<close> returns a record that holds under every key of
  \<open>newValue\<close> the value \<open>newValue\<close> has there, whatever \<open>old\<close> held under it, and under
  every other key what \<open>old\<close> holds. And for records \<open>V1\<close> and \<open>V2\<close> with no key in
  common and a key \<open>K\<close> at which \<^verbatim>\<open>GS[K]\<close> is \<^verbatim>\<open>undefined\<close> or an entry of the
  registry, \<^verbatim>\<open>setGS(K, V1)\<close> and \<^verbatim>\<open>setGS(K, V2)\<close> both return, and \<^verbatim>\<open>getGS(K)\<close> is
  afterwards the union of the two records exactly when the value read under \<open>K\<close>
  before the writes is not a keyed record with a key that neither \<open>V1\<close> nor \<open>V2\<close> has
  (so when \<open>K\<close> is unregistered, or holds a scalar, an array or the empty record).
\<close>

theorem makeNewValue_shallow_merge:
  "(truthy newValue \<longrightarrow>
      (\<exists>r. makeNewValue (JObj old) newValue = JObj r \<and>
           (\<forall>k. fmlookup r k =
                  (if k |\<in>| fmdom (own_props newValue) then fmlookup (own_props newValue) k
                   else fmlookup old k)))) \<and>
   (lookupGS K w \<noteq> Some Inherited \<and> fmdom V1 |\<inter>| fmdom V2 = {||} \<longrightarrow>
      (\<exists>w1 w2. setGS K (JObj V1) w = Inr w1 \<and> setGS K (JObj V2) w1 = Inr w2 \<and>
         (getGS K w2 = JObj (V1 ++\<^sub>f V2) \<longleftrightarrow>
            record_keys (getGS K w) |\<subseteq>| fmdom V1 |\<union>| fmdom V2) \<and>
         (\<forall>k. fmlookup (V1 ++\<^sub>f V2) k =
                (if k |\<in>| fmdom V1 then fmlookup V1 k else fmlookup V2 k))))"
proof (intro conjI impI)
  assume "truthy newValue"
  then show "\<exists>r. makeNewValue (JObj old) newValue = JObj r \<and>
           (\<forall>k. fmlookup r k =
                  (if k |\<in>| fmdom (own_props newValue) then fmlookup (own_props newValue) k
                   else fmlookup old k))"
    by (simp add: makeNewValue_record)
next
  assume a: "lookupGS K w \<noteq> Some Inherited \<and> fmdom V1 |\<inter>| fmdom V2 = {||}"
  then have "lookupGS K w \<noteq> Some Inherited" by simp
  from write_twice_reads_merge [OF this, of V1 V2]
  obtain w1 w2 where 1: "setGS K (JObj V1) w = Inr w1" and 2: "setGS K (JObj V2) w1 = Inr w2"
    and 3: "getGS K w2 =
      JObj ((case getGS K w of JObj m \<Rightarrow> m | _ \<Rightarrow> fmempty) ++\<^sub>f V1 ++\<^sub>f V2)"
    by (elim exE conjE) (rule that)
  have 4: "getGS K w2 = JObj (V1 ++\<^sub>f V2) \<longleftrightarrow>
      record_keys (getGS K w) |\<subseteq>| fmdom V1 |\<union>| fmdom V2"
    unfolding 3 by (rule union_iff_no_other_key)
  have 5: "fmlookup (V1 ++\<^sub>f V2) k = (if k |\<in>| fmdom V1 then fmlookup V1 k else fmlookup V2 k)"
    for k
  proof (cases "k |\<in>| fmdom V2")
    case True
    with a have "k |\<notin>| fmdom V1" by auto
    with True show ?thesis by simp
  next
    case False
    then show ?thesis by (auto simp: fmdom_notD)
  qed
  from 1 2 4 5 show "\<exists>w1 w2. setGS K (JObj V1) w = Inr w1 \<and> setGS K (JObj V2) w1 = Inr w2 \<and>
         (getGS K w2 = JObj (V1 ++\<^sub>f V2) \<longleftrightarrow>
            record_keys (getGS K w) |\<subseteq>| fmdom V1 |\<union>| fmdom V2) \<and>
         (\<forall>k. fmlookup (V1 ++\<^sub>f V2) k =
                (if k |\<in>| fmdom V1 then fmlookup V1 k else fmlookup V2 k))"
    by (intro exI [of _ w1] exI [of _ w2]) simp
qed

theorem makeNewValue_shallow_merge_witness:
  "truthy (JObj (fmupd ''items'' (JObj (fmupd ''b'' (JBool True) fmempty)) fmempty)) \<and>
   makeNewValue
     (JObj (fmupd ''items'' (JObj (fmupd ''a'' (JBool True) fmempty))
              (fmupd ''n'' (JNum (Rational 1)) fmempty)))
     (JObj (fmupd ''items'' (JObj (fmupd ''b'' (JBool True) fmempty)) fmempty)) =
   JObj (fmupd ''items'' (JObj (fmupd ''b'' (JBool True) fmempty))
           (fmupd ''n'' (JNum (Rational 1)) fmempty)) \<and>
   lookupGS ''K'' (initGS [(''K'', JObj fmempty)] initial_world) \<noteq> Some Inherited \<and>
   fmdom (fmupd ''a'' (JBool True) fmempty) |\<inter>| fmdom (fmupd ''b'' (JBool False) fmempty) = {||} \<and>
   record_keys (getGS ''K'' (initGS [(''K'', JObj fmempty)] initial_world)) |\<subseteq>|
     fmdom (fmupd ''a'' (JBool True) fmempty) |\<union>| fmdom (fmupd ''b'' (JBool False) fmempty) \<and>
   (\<exists>w1 w2.
      setGS ''K'' (JObj (fmupd ''a'' (JBool True) fmempty))
        (initGS [(''K'', JObj fmempty)] initial_world) = Inr w1 \<and>
      setGS ''K'' (JObj (fmupd ''b'' (JBool False) fmempty)) w1 = Inr w2 \<and>
      getGS ''K'' w2 =
        JObj (fmupd ''a'' (JBool True) fmempty ++\<^sub>f fmupd ''b'' (JBool False) fmempty))"
proof -
  let ?w = "initGS [(''K'', JObj fmempty)] initial_world"
  have h: "lookupGS ''K'' ?w \<noteq> Some Inherited"
    by (simp add: eval_defs)
  have d: "fmdom (fmupd ''a'' (JBool True) fmempty) |\<inter>| fmdom (fmupd ''b'' (JBool False) fmempty) = {||}"
    by simp
  have k: "record_keys (getGS ''K'' ?w) |\<subseteq>|
     fmdom (fmupd ''a'' (JBool True) fmempty) |\<union>| fmdom (fmupd ''b'' (JBool False) fmempty)"
    by (simp add: eval_defs)
  have t: "truthy (JObj (fmupd ''items'' (JObj (fmupd ''b'' (JBool True) fmempty)) fmempty))"
    by simp
  note merge = makeNewValue_shallow_merge
    [of "JObj (fmupd ''items'' (JObj (fmupd ''b'' (JBool True) fmempty)) fmempty)"
        "fmupd ''items'' (JObj (fmupd ''a'' (JBool True) fmempty))
              (fmupd ''n'' (JNum (Rational 1)) fmempty)"
        "''K''" ?w "fmupd ''a'' (JBool True) fmempty" "fmupd ''b'' (JBool False) fmempty"]
  from mp [OF merge [THEN conjunct2] conjI [OF h d]]
  obtain w1 w2 where 1: "setGS ''K'' (JObj (fmupd ''a'' (JBool True) fmempty)) ?w = Inr w1"
    and 2: "setGS ''K'' (JObj (fmupd ''b'' (JBool False) fmempty)) w1 = Inr w2"
    and 3: "getGS ''K'' w2 =
         JObj (fmupd ''a'' (JBool True) fmempty ++\<^sub>f fmupd ''b'' (JBool False) fmempty) \<longleftrightarrow>
       record_keys (getGS ''K'' ?w) |\<subseteq>|
         fmdom (fmupd ''a'' (JBool True) fmempty) |\<union>| fmdom (fmupd ''b'' (JBool False) fmempty)"
    by (elim exE conjE) (rule that)
  from 3 k have "getGS ''K'' w2 =
         JObj (fmupd ''a'' (JBool True) fmempty ++\<^sub>f fmupd ''b'' (JBool False) fmempty)"
    by (rule iffD2)
  with 1 2 have "\<exists>w1 w2. setGS ''K'' (JObj (fmupd ''a'' (JBool True) fmempty)) ?w = Inr w1 \<and>
      setGS ''K'' (JObj (fmupd ''b'' (JBool False) fmempty)) w1 = Inr w2 \<and>
      getGS ''K'' w2 =
         JObj (fmupd ''a'' (JBool True) fmempty ++\<^sub>f fmupd ''b'' (JBool False) fmempty)"
    by (intro exI [of _ w1] exI [of _ w2] conjI)
  moreover have "makeNewValue
     (JObj (fmupd ''items'' (JObj (fmupd ''a'' (JBool True) fmempty))
              (fmupd ''n'' (JNum (Rational 1)) fmempty)))
     (JObj (fmupd ''items'' (JObj (fmupd ''b'' (JBool True) fmempty)) fmempty)) =
   JObj (fmupd ''items'' (JObj (fmupd ''b'' (JBool True) fmempty))
           (fmupd ''n'' (JNum (Rational 1)) fmempty))"
    by (simp add: makeNewValue_def)
  ultimately show ?thesis using h d k t by (intro conjI) assumption+
qed

text \<open>
  C4 as stated fails where \<open>K\<close> already holds a keyed record with a key that neither
  \<open>V1\<close> nor \<open>V2\<close> has: the field stays in the value, which is then more than the union
  of \<open>V1\<close> and \<open>V2\<close>.
\<close>

theorem write_over_registered_record_counterexample:
  "fmdom (fmupd ''a'' (JBool True) fmempty) |\<inter>| fmdom (fmupd ''b'' (JBool True) fmempty) = {||} \<and>
   (\<exists>w1 w2.
      setGS ''K'' (JObj (fmupd ''a'' (JBool True) fmempty))
        (initGS [(''K'', JObj (fmupd ''z'' (JBool True) fmempty))] initial_world) = Inr w1 \<and>
      setGS ''K'' (JObj (fmupd ''b'' (JBool True) fmempty)) w1 = Inr w2 \<and>
      getGS ''K'' w2 =
        JObj (fmupd ''b'' (JBool True) (fmupd ''a'' (JBool True) (fmupd ''z'' (JBool True) fmempty))) \<and>
      getGS ''K'' w2 \<noteq>
        JObj (fmupd ''a'' (JBool True) fmempty ++\<^sub>f fmupd ''b'' (JBool True) fmempty))"
proof -
  have "fmlookup (fmupd ''b'' (JBool True) (fmupd ''a'' (JBool True) (fmupd ''z'' (JBool True) fmempty))) ''z''
      \<noteq> fmlookup (fmupd ''a'' (JBool True) fmempty ++\<^sub>f fmupd ''b'' (JBool True) fmempty) ''z''"
    by simp
  then have "fmupd ''b'' (JBool True) (fmupd ''a'' (JBool True) (fmupd ''z'' (JBool True) fmempty))
      \<noteq> fmupd ''a'' (JBool True) fmempty ++\<^sub>f fmupd ''b'' (JBool True) fmempty"
    by metis
  then show ?thesis by (simp add: eval_defs)
qed




text \<open>
  C6. After \<^verbatim>\<open>initGS({K: V})\<close>, \<^verbatim>\<open>getGS(K)\<close> is \<open>V\<close> and the entry of \<open>K\<close> has the empty
  listener set, whatever the registry held before; and so it is after \<^verbatim>\<open>initGS\<close> on
  any object that holds \<open>V\<close> under \<open>K\<close> (the pairs of an object have distinct keys).
\<close>

theorem initGS_then_getGS:
  "getGS K (initGS [(K, V)] w) = V \<and>
   GS (initGS [(K, V)] w) K = Some \<lparr>entry_value = V, listeners = []\<rparr> \<and>
   (distinct (map fst initialState) \<and> (K, V) \<in> set initialState \<longrightarrow>
      getGS K (initGS initialState w) = V \<and>
      GS (initGS initialState w) K = Some \<lparr>entry_value = V, listeners = []\<rparr>)"
proof -
  have "GS (initGS initialState w) K = Some \<lparr>entry_value = V, listeners = []\<rparr>"
    if "distinct (map fst initialState)" and "(K, V) \<in> set initialState"
    for initialState
    by (rule GS_initGS_member [OF that])
  from this [of "[(K, V)]"] this [of initialState] show ?thesis
    by (simp add: getGS_entry)
qed

theorem initGS_then_getGS_witness:
  "\<exists>w e. run [Render 0 ''TEST_KEY'' JUndefined, Commit 0] initial_world = Inr w \<and>
      GS w ''TEST_KEY'' = Some e \<and> map listener_setVal (listeners e) = [0] \<and>
      distinct (map fst [(''TEST_KEY'', JStr ''testValue''), (''FLAG'', JBool False)]) \<and>
      (''TEST_KEY'', JStr ''testValue'') \<in>
        set [(''TEST_KEY'', JStr ''testValue''), (''FLAG'', JBool False)] \<and>
      getGS ''TEST_KEY''
        (initGS [(''TEST_KEY'', JStr ''testValue''), (''FLAG'', JBool False)] w) =
        JStr ''testValue'' \<and>
      GS (initGS [(''TEST_KEY'', JStr ''testValue''), (''FLAG'', JBool False)] w) ''TEST_KEY'' =
        Some \<lparr>entry_value = JStr ''testValue'', listeners = []\<rparr>"
proof -
  have "\<exists>w e. run [Render 0 ''TEST_KEY'' JUndefined, Commit 0] initial_world = Inr w \<and>
      GS w ''TEST_KEY'' = Some e \<and> map listener_setVal (listeners e) = [0]"
    by (simp add: eval_defs)
  then obtain w e where r: "run [Render 0 ''TEST_KEY'' JUndefined, Commit 0] initial_world = Inr w"
    and e: "GS w ''TEST_KEY'' = Some e" "map listener_setVal (listeners e) = [0]"
    by (elim exE conjE) (rule that)
  have d: "distinct (map fst [(''TEST_KEY'', JStr ''testValue''), (''FLAG'', JBool False)])"
    and m: "(''TEST_KEY'', JStr ''testValue'') \<in>
        set [(''TEST_KEY'', JStr ''testValue''), (''FLAG'', JBool False)]"
    by simp_all
  from initGS_then_getGS
    [of "''TEST_KEY''" "JStr ''testValue''" w
        "[(''TEST_KEY'', JStr ''testValue''), (''FLAG'', JBool False)]"] r e d m
  show ?thesis
    by (intro exI [of _ w] exI [of _ e]) simp
qed

text \<open>
  C7, at an input where the code breaks it. Nothing has registered the key
  \<^verbatim>\<open>toString\<close>, yet \<^verbatim>\<open>GS["toString"]\<close> is the function that \<^verbatim>\<open>GS\<close> inherits, and
  \<^verbatim>\<open>getGS\<close> returns the \<^verbatim>\<open>value\<close> property of that function, \<^verbatim>\<open>undefined\<close>, not
  \<^verbatim>\<open>null\<close>.
\<close>

theorem getGS_toString_not_null:
  "GS initial_world ''toString'' = None \<and> getGS ''toString'' initial_world = JUndefined \<and>
   getGS ''toString'' initial_world \<noteq> JNull"
  by (simp add: eval_defs)

text \<open>
  C8, at an input where the code breaks it. Nothing has registered the key
  \<^verbatim>\<open>toString\<close>, yet \<^verbatim>\<open>setGS\<close> does not register it: it takes the inherited function
  for the entry and throws at \<^verbatim>\<open>GS[key].listeners.forEach\<close>.
\<close>

theorem setGS_toString_throws:
  "GS initial_world ''toString'' = None \<and>
   setGS ''toString'' (JBool True) initial_world = Inl TypeError"
  by (simp add: eval_defs)

text \<open>
  C9. In every state a run of the program reaches from the start: no listener set holds
  two listeners of one component instance; once the first effect of an instance has run,
  a render of it and the commit of that render add no listener to any set (every
  listener set is what it was, and one of a new entry is empty); and a write to a key
  calls the state setters of the key's listeners, no setter twice.
\<close>

theorem listener_added_at_most_once:
  assumes "run evs initial_world = Inr w"
  shows "(\<forall>K e. GS w K = Some e \<longrightarrow> distinct (map listener_setVal (listeners e))) \<and>
         (\<forall>i c key initialValue w1 w2 K e2.
            components w i = Some c \<and> \<not> isFirstRender c \<and>
            render i key initialValue w = Inr w1 \<and> commit i w1 = Inr w2 \<and>
            GS w2 K = Some e2 \<longrightarrow>
            listeners e2 = [] \<or> (\<exists>e. GS w K = Some e \<and> listeners e2 = listeners e)) \<and>
         (\<forall>K e newValue. GS w K = Some e \<longrightarrow>
            (\<exists>w' ds. setGS K newValue w = Inr w' \<and> dispatched w' = dispatched w @ ds \<and>
               distinct ds \<and> set ds = listener_setVal ` set (listeners e)))"
proof -
  have ok: "listeners_ok w"
    by (rule listeners_ok_run [OF listeners_ok_initial assms])
  have 1: "distinct (map listener_setVal (listeners e))" if "GS w K = Some e" for K e
    by (rule listeners_ok_distinct [OF ok that])
  have 2: "listeners e2 = [] \<or> (\<exists>e. GS w K = Some e \<and> listeners e2 = listeners e)"
    if "components w i = Some c \<and> \<not> isFirstRender c \<and>
        render i key initialValue w = Inr w1 \<and> commit i w1 = Inr w2 \<and> GS w2 K = Some e2"
    for i c key initialValue w1 w2 K e2
    using that rerender_adds_nothing [OF ok, of i c key initialValue w1 w2 K e2] by simp
  have 3: "\<exists>w' ds. setGS K newValue w = Inr w' \<and> dispatched w' = dispatched w @ ds \<and>
               distinct ds \<and> set ds = listener_setVal ` set (listeners e)"
    if "GS w K = Some e" for K e newValue
    using that 1 [OF that] by (simp add: setGS_entry dispatched_notify)
  from 1 2 3 show ?thesis by (intro conjI allI impI)
qed

theorem listener_added_at_most_once_witness:
  "\<exists>w e w'. run [Render 0 ''K'' JUndefined, Commit 0, Write ''K'' (JBool True),
                 Render 0 ''K'' JUndefined, Commit 0, Render 0 ''K'' JUndefined, Commit 0]
              initial_world = Inr w \<and>
     GS w ''K'' = Some e \<and> map listener_setVal (listeners e) = [0] \<and>
     distinct (map listener_setVal (listeners e)) \<and>
     setGS ''K'' (JBool False) w = Inr w' \<and> dispatched w' = dispatched w @ [0]"
proof -
  have "\<exists>w e. run [Render 0 ''K'' JUndefined, Commit 0, Write ''K'' (JBool True),
                 Render 0 ''K'' JUndefined, Commit 0, Render 0 ''K'' JUndefined, Commit 0]
              initial_world = Inr w \<and>
     GS w ''K'' = Some e \<and> map listener_setVal (listeners e) = [0]"
    by (simp add: eval_defs)
  then obtain w e where
    r: "run [Render 0 ''K'' JUndefined, Commit 0, Write ''K'' (JBool True),
                 Render 0 ''K'' JUndefined, Commit 0, Render 0 ''K'' JUndefined, Commit 0]
              initial_world = Inr w"
    and e: "GS w ''K'' = Some e" and ls: "map listener_setVal (listeners e) = [0]"
    by (elim exE conjE) (rule that)
  from listener_added_at_most_once [OF r]
  have d: "distinct (map listener_setVal (listeners e))"
    and "\<exists>w' ds. setGS ''K'' (JBool False) w = Inr w' \<and> dispatched w' = dispatched w @ ds \<and>
               distinct ds \<and> set ds = listener_setVal ` set (listeners e)"
    using e by simp_all
  then obtain w' ds where s: "setGS ''K'' (JBool False) w = Inr w'"
    and ds: "dispatched w' = dispatched w @ ds"
    by (elim exE conjE) (rule that)
  from s e have "dispatched w' = dispatched w @ map listener_setVal (listeners e)"
    by (auto simp: setGS_entry dispatched_notify)
  with r e ls d s show ?thesis
    by (intro exI [of _ w] exI [of _ e] exI [of _ w']) simp
qed

text \<open>
  C10. A write to a key that has an entry calls the state setter of every listener of
  the entry, once each in the order of the set, whatever the old and the new value are:
  the code compares no values.
\<close>

theorem setGS_notifies_unconditionally:
  assumes "GS w K = Some e"
  shows "\<exists>w'. setGS K newValue w = Inr w' \<and>
           dispatched w' = dispatched w @ map listener_setVal (listeners e)"
  using assms by (simp add: setGS_entry dispatched_notify)

theorem setGS_notifies_unconditionally_witness:
  "\<exists>w e w'. run [Render 0 ''K'' (JStr ''x''), Commit 0] initial_world = Inr w \<and>
      GS w ''K'' = Some e \<and> makeNewValue (entry_value e) (JStr ''x'') = entry_value e \<and>
      setGS ''K'' (JStr ''x'') w = Inr w' \<and> getGS ''K'' w' = getGS ''K'' w \<and>
      dispatched w = [] \<and> dispatched w' = [0]"
proof -
  have "\<exists>w e. run [Render 0 ''K'' (JStr ''x''), Commit 0] initial_world = Inr w \<and>
      GS w ''K'' = Some e \<and> entry_value e = JStr ''x'' \<and>
      map listener_setVal (listeners e) = [0] \<and> dispatched w = []"
    by (simp add: eval_defs)
  then obtain w e where r: "run [Render 0 ''K'' (JStr ''x''), Commit 0] initial_world = Inr w"
    and e: "GS w ''K'' = Some e" and v: "entry_value e = JStr ''x''"
    and ls: "map listener_setVal (listeners e) = [0]" and d: "dispatched w = []"
    by (elim exE conjE) (rule that)
  from setGS_notifies_unconditionally [OF e, of "JStr ''x''"]
  obtain w' where s: "setGS ''K'' (JStr ''x'') w = Inr w'"
    and d': "dispatched w' = dispatched w @ map listener_setVal (listeners e)"
    by blast
  have m: "makeNewValue (entry_value e) (JStr ''x'') = entry_value e"
    by (simp add: v makeNewValue_def)
  from s e have "GS w' ''K'' = Some (e\<lparr>entry_value := makeNewValue (entry_value e) (JStr ''x'')\<rparr>)"
    by (simp add: GS_after_setGS_entry)
  with e m have "getGS ''K'' w' = getGS ''K'' w" by (simp add: getGS_entry)
  with r e m s d d' ls show ?thesis
    by (intro exI [of _ w] exI [of _ e] exI [of _ w']) simp
qed

end
